theory Spec2Isabelle
  imports Main
begin

section \<open>The document\<close>

text \<open>
  The script \<^verbatim>\<open>ingredientsmenu.js\<close> works on the page's element tree through jQuery.
  An element carries its tag name, the tokens of its class attribute, its other attributes
  (in document order, as \<^verbatim>\<open>setAttribute\<close> keeps them) and its element children. Text and
  comment nodes are left out: \<^verbatim>\<open>siblings\<close> and \<^verbatim>\<open>find\<close> only ever return elements.
  An element of the page is addressed by the child indices leading to it from the root.
\<close>

datatype element =
  Element (tagName: string) (classList: "string list")
          (attributes: "(string \<times> string) list") (children: "element list")

type_synonym path = "nat list"

fun node_at :: "element \<Rightarrow> path \<Rightarrow> element option" where
  "node_at e [] = Some e"
| "node_at e (i # p) =
     (if i < length (children e) then node_at (children e ! i) p else None)"

text \<open>All elements of a subtree in document order, the subtree's root first.\<close>

fun paths :: "element \<Rightarrow> path list"
  and paths_from :: "nat \<Rightarrow> element list \<Rightarrow> path list" where
  "paths (Element t c a ks) = [] # paths_from 0 ks"
| "paths_from i [] = []"
| "paths_from i (k # ks) = map ((#) i) (paths k) @ paths_from (Suc i) ks"

definition hasClass :: "element \<Rightarrow> path \<Rightarrow> string \<Rightarrow> bool" where
  "hasClass doc p c =
     (case node_at doc p of None \<Rightarrow> False | Some e \<Rightarrow> c \<in> set (classList e))"

definition getAttribute :: "element \<Rightarrow> path \<Rightarrow> string \<Rightarrow> string option" where
  "getAttribute doc p n =
     (case node_at doc p of None \<Rightarrow> None | Some e \<Rightarrow> map_of (attributes e) n)"

fun setAttribute :: "string \<Rightarrow> string \<Rightarrow> (string \<times> string) list \<Rightarrow> (string \<times> string) list" where
  "setAttribute n v [] = [(n, v)]"
| "setAttribute n v ((k, w) # as) =
     (if k = n then (k, v) # as else (k, w) # setAttribute n v as)"

definition set_attr :: "string \<Rightarrow> string \<Rightarrow> element \<Rightarrow> element" where
  "set_attr n v e = Element (tagName e) (classList e) (setAttribute n v (attributes e)) (children e)"

fun update_at :: "(element \<Rightarrow> element) \<Rightarrow> path \<Rightarrow> element \<Rightarrow> element" where
  "update_at f [] e = f e"
| "update_at f (i # p) (Element t c a ks) =
     (if i < length ks then Element t c a (ks[i := update_at f p (ks ! i)])
      else Element t c a ks)"

section \<open>The jQuery operations the script calls\<close>

text \<open>
  A jQuery object is a duplicate-free collection of elements of the page; it is a list of
  paths here. \<^verbatim>\<open>$(".c")\<close> selects every element of the page with class \<^verbatim>\<open>c\<close>.
\<close>

definition jq_select :: "element \<Rightarrow> string \<Rightarrow> path list" where
  "jq_select doc c = filter (\<lambda>p. hasClass doc p c) (paths doc)"

text \<open>
  \<^verbatim>\<open>.siblings()\<close>: for each element of the collection, the other element children of its
  parent. The root element has none.
\<close>

definition siblings_of :: "element \<Rightarrow> path \<Rightarrow> path list" where
  "siblings_of doc t =
     (if t = [] then []
      else case node_at doc (butlast t) of
             None \<Rightarrow> []
           | Some parent \<Rightarrow>
               map (\<lambda>j. butlast t @ [j])
                   (filter (\<lambda>j. j \<noteq> last t) [0..<length (children parent)]))"

definition jq_siblings :: "element \<Rightarrow> path list \<Rightarrow> path list" where
  "jq_siblings doc sel = remdups (concat (map (siblings_of doc) sel))"

text \<open>
  \<^verbatim>\<open>.find(".c")\<close>: the descendants with class \<^verbatim>\<open>c\<close> of the elements of the collection; an
  element of the collection is not a descendant of itself.
\<close>

definition find_in :: "element \<Rightarrow> path \<Rightarrow> string \<Rightarrow> path list" where
  "find_in doc s c =
     (case node_at doc s of
        None \<Rightarrow> []
      | Some e \<Rightarrow> filter (\<lambda>p. hasClass doc p c)
                   (map ((@) s) (filter (\<lambda>r. r \<noteq> []) (paths e))))"

definition jq_find :: "element \<Rightarrow> path list \<Rightarrow> string \<Rightarrow> path list" where
  "jq_find doc sel c = remdups (concat (map (\<lambda>s. find_in doc s c) sel))"

text \<open>\<^verbatim>\<open>.attr(n, v)\<close>: set attribute \<^verbatim>\<open>n\<close> to \<^verbatim>\<open>v\<close> on every element of the collection.\<close>

definition jq_attr :: "element \<Rightarrow> path list \<Rightarrow> string \<Rightarrow> string \<Rightarrow> element" where
  "jq_attr doc sel n v = fold (update_at (set_attr n v)) sel doc"

section \<open>The script\<close>

definition COLLAPSED_SRC :: string where
  "COLLAPSED_SRC = ''http://icons.iconarchive.com/icons/awicons/vista-artistic/128/add-icon.png''"

definition EXPANDED_SRC :: string where
  "EXPANDED_SRC = ''https://cdn1.iconfinder.com/data/icons/basic-ui-elements-color/700/07_minus-128.png''"

text \<open>
  \<^verbatim>\<open>function updateImage(div, src) { div.siblings().find(".update-image").attr("src", src); }\<close>
\<close>

definition updateImage :: "element \<Rightarrow> path list \<Rightarrow> string \<Rightarrow> element" where
  "updateImage doc divs src =
     jq_attr doc (jq_find doc (jq_siblings doc divs) ''update-image'') ''src'' src"

text \<open>
  The page as the script sees it: the document and the elements each of the two handlers
  has been bound to by \<^verbatim>\<open>.on\<close>.
\<close>

datatype event_type = show_bs_collapse | hide_bs_collapse

type_synonym event = "event_type \<times> path"

record page =
  document :: element
  show_bound :: "path list"
  hide_bound :: "path list"

text \<open>
  The body of the \<^verbatim>\<open>$(document).ready\<close> callback: the collapsed icon on the images of
  every toggle, then the two bindings, each on the elements \<^verbatim>\<open>$(".update-on-expand")\<close>
  selects at that moment.
\<close>

definition ready :: "element \<Rightarrow> page" where
  "ready doc =
     (let doc1 = updateImage doc (jq_select doc ''update-on-expand'') COLLAPSED_SRC
      in \<lparr>document = doc1,
          show_bound = jq_select doc1 ''update-on-expand'',
          hide_bound = jq_select doc1 ''update-on-expand''\<rparr>)"

text \<open>
  One event arriving at an element: the handler bound to that element for that event type
  runs with \<^verbatim>\<open>this\<close> the element; where none is bound nothing runs. This is one handler
  invocation. An event that bubbles on to an enclosing element with a handler is a further
  invocation there, that is a further \<open>trigger\<close> at that element.
\<close>

fun trigger :: "page \<Rightarrow> event \<Rightarrow> page" where
  "trigger pg (show_bs_collapse, this) =
     (if this \<in> set (show_bound pg)
      then pg\<lparr>document := updateImage (document pg) [this] EXPANDED_SRC\<rparr>
      else pg)"
| "trigger pg (hide_bs_collapse, this) =
     (if this \<in> set (hide_bound pg)
      then pg\<lparr>document := updateImage (document pg) [this] COLLAPSED_SRC\<rparr>
      else pg)"

definition run :: "page \<Rightarrow> event list \<Rightarrow> page" where
  "run pg evs = foldl trigger pg evs"

text \<open>
  The same as a transition relation in which the environment's choices are left open. The
  script hands a collection to \<^verbatim>\<open>.attr\<close> and does not say in which order its elements are
  visited, nor that each is visited once: \<open>sets_src\<close> allows any enumeration of the elements
  the selector matches. \<open>starts\<close> is the ready callback, \<open>handles\<close> one handler invocation
  (or none where no handler is bound), \<open>runs\<close> a sequence of events.
\<close>

inductive sets_src :: "element \<Rightarrow> path list \<Rightarrow> string \<Rightarrow> element \<Rightarrow> bool" where
  visit: "set sel = set (jq_find doc (jq_siblings doc divs) ''update-image'') \<Longrightarrow>
     sets_src doc divs src (jq_attr doc sel ''src'' src)"


inductive handles :: "page \<Rightarrow> event \<Rightarrow> page \<Rightarrow> bool" where
  on_show: "this \<in> set (show_bound pg) \<Longrightarrow>
     sets_src (document pg) [this] EXPANDED_SRC doc1 \<Longrightarrow>
     handles pg (show_bs_collapse, this) (pg\<lparr>document := doc1\<rparr>)"
| on_hide: "this \<in> set (hide_bound pg) \<Longrightarrow>
     sets_src (document pg) [this] COLLAPSED_SRC doc1 \<Longrightarrow>
     handles pg (hide_bs_collapse, this) (pg\<lparr>document := doc1\<rparr>)"
| no_show: "this \<notin> set (show_bound pg) \<Longrightarrow> handles pg (show_bs_collapse, this) pg"
| no_hide: "this \<notin> set (hide_bound pg) \<Longrightarrow> handles pg (hide_bs_collapse, this) pg"

inductive runs :: "page \<Rightarrow> event list \<Rightarrow> page \<Rightarrow> bool" where
  runs_Nil: "runs pg [] pg"
| runs_Cons: "handles pg ev pg1 \<Longrightarrow> runs pg1 evs pg2 \<Longrightarrow> runs pg (ev # evs) pg2"

text \<open>The tree with every attribute erased: what selection depends on.\<close>

fun shape :: "element \<Rightarrow> element" where
  "shape (Element t c a ks) = Element t c [] (map shape ks)"

text \<open>
  A sample page: a panel whose heading holds an icon inside a link, the collapsible body
  (a toggle) with a nested toggle that has no icon, a logo directly beside the body, and a
  footer with a second icon.
\<close>

definition sample_doc :: element where
  "sample_doc =
     Element ''div'' [''panel''] []
       [Element ''div'' [''panel-heading''] []
          [Element ''a'' [] [(''href'', ''#c1'')]
             [Element ''img'' [''update-image''] [(''alt'', ''toggle'')] []]],
        Element ''div'' [''collapse'', ''update-on-expand''] [(''id'', ''c1'')]
          [Element ''div'' [''update-on-expand''] [] [],
           Element ''p'' [] [] []],
        Element ''img'' [''update-image''] [(''src'', ''logo.png'')] [],
        Element ''div'' [''panel-footer''] []
          [Element ''img'' [''update-image''] [] []]]"

section \<open>Paths and selections\<close>

lemma node_at_append:
  "node_at e (p @ q) = (case node_at e p of None \<Rightarrow> None | Some e' \<Rightarrow> node_at e' q)"
  by (induction p arbitrary: e) auto

lemma paths_valid_aux:
  "(p \<in> set (paths e) \<longleftrightarrow> node_at e p \<noteq> None)"
  "(p \<in> set (paths_from i ks) \<longleftrightarrow>
      (\<exists>j r. p = (i + j) # r \<and> j < length ks \<and> node_at (ks ! j) r \<noteq> None))"
proof (induction e and i ks arbitrary: p and p rule: paths_paths_from.induct)
  case (1 t c a ks)
  show ?case
  proof (cases p)
    case Nil
    then show ?thesis by simp
  next
    case (Cons j r)
    then show ?thesis using 1[of p] by auto
  qed
next
  case (2 i)
  show ?case by simp
next
  case (3 i k ks)
  show ?case
  proof
    assume "p \<in> set (paths_from i (k # ks))"
    then consider r where "p = i # r" "r \<in> set (paths k)" | "p \<in> set (paths_from (Suc i) ks)"
      by auto
    then show "\<exists>j r. p = (i + j) # r \<and> j < length (k # ks) \<and> node_at ((k # ks) ! j) r \<noteq> None"
    proof cases
      case 1
      then have "node_at k r \<noteq> None" using 3(1) by blast
      then show ?thesis using 1 by (intro exI[of _ 0] exI[of _ r]) simp
    next
      case 2
      then obtain j r where "p = (Suc i + j) # r" "j < length ks" "node_at (ks ! j) r \<noteq> None"
        using 3(2) by blast
      then show ?thesis by (intro exI[of _ "Suc j"] exI[of _ r]) simp
    qed
  next
    assume "\<exists>j r. p = (i + j) # r \<and> j < length (k # ks) \<and> node_at ((k # ks) ! j) r \<noteq> None"
    then obtain j r where h: "p = (i + j) # r" "j < length (k # ks)" "node_at ((k # ks) ! j) r \<noteq> None"
      by blast
    show "p \<in> set (paths_from i (k # ks))"
    proof (cases j)
      case 0
      then show ?thesis using h 3(1)[of r] by simp
    next
      case (Suc j')
      then have "p \<in> set (paths_from (Suc i) ks)" using h 3(2)[of p] by auto
      then show ?thesis by simp
    qed
  qed
qed

lemma node_at_snoc:
  "node_at d (q @ [j]) \<noteq> None \<longleftrightarrow>
     (\<exists>par. node_at d q = Some par \<and> j < length (children par))"
  by (simp add: node_at_append split: option.splits)

lemma node_at_prefix: "node_at d (p @ r) \<noteq> None \<Longrightarrow> node_at d p \<noteq> None"
  by (simp add: node_at_append split: option.splits)

lemma hasClass_valid: "hasClass d p c \<Longrightarrow> node_at d p \<noteq> None"
  by (simp add: hasClass_def split: option.splits)

lemma siblings_of_iff:
  "s \<in> set (siblings_of d t) \<longleftrightarrow>
     (\<exists>q i j. t = q @ [i] \<and> s = q @ [j] \<and> j \<noteq> i \<and> node_at d s \<noteq> None)"
proof (cases "t = []")
  case True
  then show ?thesis by (simp add: siblings_of_def)
next
  case False
  then have t: "t = butlast t @ [last t]" by simp
  have "s \<in> set (siblings_of d t) \<longleftrightarrow>
          (\<exists>j. s = butlast t @ [j] \<and> j \<noteq> last t \<and> node_at d (butlast t @ [j]) \<noteq> None)"
  proof (cases "node_at d (butlast t)")
    case None
    then show ?thesis using False by (simp add: siblings_of_def node_at_append)
  next
    case (Some par)
    then show ?thesis using False by (auto simp: siblings_of_def node_at_append)
  qed
  also have "\<dots> \<longleftrightarrow> (\<exists>q i j. t = q @ [i] \<and> s = q @ [j] \<and> j \<noteq> i \<and> node_at d s \<noteq> None)"
  proof
    assume "\<exists>j. s = butlast t @ [j] \<and> j \<noteq> last t \<and> node_at d (butlast t @ [j]) \<noteq> None"
    then obtain j where "s = butlast t @ [j]" "j \<noteq> last t" "node_at d s \<noteq> None" by blast
    with t show "\<exists>q i j. t = q @ [i] \<and> s = q @ [j] \<and> j \<noteq> i \<and> node_at d s \<noteq> None" by blast
  next
    assume "\<exists>q i j. t = q @ [i] \<and> s = q @ [j] \<and> j \<noteq> i \<and> node_at d s \<noteq> None"
    then obtain q i j where "t = q @ [i]" "s = q @ [j]" "j \<noteq> i" "node_at d s \<noteq> None" by blast
    then show "\<exists>j. s = butlast t @ [j] \<and> j \<noteq> last t \<and> node_at d (butlast t @ [j]) \<noteq> None"
      by (intro exI[of _ j]) simp
  qed
  finally show ?thesis .
qed

lemma find_in_iff:
  "p \<in> set (find_in d s c) \<longleftrightarrow> (\<exists>r. r \<noteq> [] \<and> p = s @ r \<and> hasClass d p c)"
proof (cases "node_at d s")
  case None
  then have "\<not> hasClass d (s @ r) c" for r
    using hasClass_valid node_at_prefix by blast
  then show ?thesis using None by (auto simp: find_in_def)
next
  case (Some e)
  have "r \<in> set (paths e)" if "hasClass d (s @ r) c" for r
    using that Some hasClass_valid[of d "s @ r" c]
    by (simp add: paths_valid_aux(1) node_at_append)
  then show ?thesis using Some by (auto simp: find_in_def)
qed

lemma targets_iff:
  "p \<in> set (jq_find d (jq_siblings d divs) c) \<longleftrightarrow>
     (\<exists>q i j r. q @ [i] \<in> set divs \<and> j \<noteq> i \<and> r \<noteq> [] \<and> p = q @ j # r \<and> hasClass d p c)"
proof
  assume "p \<in> set (jq_find d (jq_siblings d divs) c)"
  then obtain t s where t: "t \<in> set divs" and s: "s \<in> set (siblings_of d t)"
    and p: "p \<in> set (find_in d s c)"
    by (auto simp: jq_find_def jq_siblings_def)
  from s obtain q i j where "t = q @ [i]" "s = q @ [j]" "j \<noteq> i"
    unfolding siblings_of_iff by blast
  moreover from p obtain r where "r \<noteq> []" "p = s @ r" "hasClass d p c"
    unfolding find_in_iff by blast
  ultimately show "\<exists>q i j r. q @ [i] \<in> set divs \<and> j \<noteq> i \<and> r \<noteq> [] \<and> p = q @ j # r \<and> hasClass d p c"
    using t by (intro exI[of _ q] exI[of _ i] exI[of _ j] exI[of _ r]) simp
next
  assume "\<exists>q i j r. q @ [i] \<in> set divs \<and> j \<noteq> i \<and> r \<noteq> [] \<and> p = q @ j # r \<and> hasClass d p c"
  then obtain q i j r where h: "q @ [i] \<in> set divs" "j \<noteq> i" "r \<noteq> []" "p = q @ j # r" "hasClass d p c"
    by blast
  have "node_at d ((q @ [j]) @ r) \<noteq> None" using h hasClass_valid[of d p c] by simp
  then have "node_at d (q @ [j]) \<noteq> None" by (rule node_at_prefix)
  then have "q @ [j] \<in> set (siblings_of d (q @ [i]))"
    unfolding siblings_of_iff using h(2) by blast
  moreover have "p \<in> set (find_in d (q @ [j]) c)"
    unfolding find_in_iff using h by (intro exI[of _ r]) simp
  ultimately show "p \<in> set (jq_find d (jq_siblings d divs) c)"
    using h(1) by (auto simp: jq_find_def jq_siblings_def)
qed

lemma jq_select_iff: "t \<in> set (jq_select d c) \<longleftrightarrow> hasClass d t c"
  using hasClass_valid[of d t c] by (auto simp: jq_select_def paths_valid_aux(1))

section \<open>What selection depends on\<close>

lemma shape_sel [simp]:
  "tagName (shape e) = tagName e" "classList (shape e) = classList e"
  "children (shape e) = map shape (children e)"
  by (cases e; simp)+

lemma node_at_shape: "node_at (shape e) p = map_option shape (node_at e p)"
  by (induction p arbitrary: e) auto

lemma paths_shape_aux:
  "paths (shape e) = paths e"
  "paths_from i (map shape ks) = paths_from i ks"
  by (induction e and i ks rule: paths_paths_from.induct) auto

lemma hasClass_shape: "hasClass (shape e) p c = hasClass e p c"
  by (simp add: hasClass_def node_at_shape split: option.splits)

lemma jq_select_shape: "jq_select (shape e) c = jq_select e c"
  by (simp add: jq_select_def hasClass_shape paths_shape_aux)

lemma siblings_of_shape: "siblings_of (shape e) = siblings_of e"
  by (rule ext) (simp add: siblings_of_def node_at_shape split: option.splits)

lemma jq_siblings_shape: "jq_siblings (shape e) sel = jq_siblings e sel"
  by (simp add: jq_siblings_def siblings_of_shape)

lemma find_in_shape: "find_in (shape e) s c = find_in e s c"
  by (simp add: find_in_def node_at_shape hasClass_shape paths_shape_aux split: option.splits)

lemma jq_find_shape: "jq_find (shape e) sel c = jq_find e sel c"
  by (simp add: jq_find_def find_in_shape)

lemma shape_update_at: "shape (update_at (set_attr n v) p e) = shape e"
proof (induction p arbitrary: e)
  case Nil
  show ?case by (cases e) (simp add: set_attr_def)
next
  case (Cons i p)
  show ?case
  proof (cases e)
    case (Element t c a ks)
    show ?thesis
    proof (cases "i < length ks")
      case True
      have "(map shape ks)[i := shape (update_at (set_attr n v) p (ks ! i))] = map shape ks"
        using True by (simp add: Cons.IH list_update_same_conv)
      then show ?thesis using Element True by (simp add: map_update)
    next
      case False
      then show ?thesis using Element by simp
    qed
  qed
qed

lemma shape_jq_attr: "shape (jq_attr doc sel n v) = shape doc"
  unfolding jq_attr_def by (induction sel arbitrary: doc) (simp_all add: shape_update_at)

lemma shape_updateImage: "shape (updateImage doc divs src) = shape doc"
  by (simp add: updateImage_def shape_jq_attr)

lemma same_shape_select: "shape d' = shape d \<Longrightarrow> jq_select d' c = jq_select d c"
  by (metis jq_select_shape)

lemma same_shape_targets:
  "shape d' = shape d \<Longrightarrow>
     jq_find d' (jq_siblings d' sel) c = jq_find d (jq_siblings d sel) c"
  by (metis jq_find_shape jq_siblings_shape)

lemma same_shape_hasClass: "shape d' = shape d \<Longrightarrow> hasClass d' p c = hasClass d p c"
  by (metis hasClass_shape)

section \<open>Attributes after an update\<close>

lemma setAttribute_idem: "setAttribute n v (setAttribute n v as) = setAttribute n v as"
  by (induction as) auto

lemma map_of_setAttribute: "map_of (setAttribute n v as) = (map_of as)(n \<mapsto> v)"
  by (induction as) auto

lemma attrs_update_at:
  "map_option attributes (node_at (update_at (set_attr n v) p e) q) =
     (if q = p then map_option (setAttribute n v) (map_option attributes (node_at e q))
      else map_option attributes (node_at e q))"
proof (induction p arbitrary: e q)
  case Nil
  show ?case by (cases q) (simp_all add: set_attr_def)
next
  case (Cons i p)
  show ?case
  proof (cases e)
    case (Element t c a ks)
    show ?thesis
    proof (cases q)
      case Nil
      then show ?thesis using Element by simp
    next
      case (Cons j q')
      show ?thesis
      proof (cases "j = i")
        case True
        then show ?thesis using Element Cons by (simp add: Cons.IH)
      next
        case False
        then show ?thesis using Element Cons by simp
      qed
    qed
  qed
qed

lemma attrs_jq_attr:
  "map_option attributes (node_at (jq_attr doc sel n v) q) =
     (if q \<in> set sel then map_option (setAttribute n v) (map_option attributes (node_at doc q))
      else map_option attributes (node_at doc q))"
  unfolding jq_attr_def
proof (induction sel arbitrary: doc)
  case Nil
  show ?case by simp
next
  case (Cons p sel)
  show ?case
    by (simp add: Cons.IH attrs_update_at option.map_comp comp_def setAttribute_idem)
qed

lemma getAttribute_alt:
  "getAttribute doc p n =
     (case map_option attributes (node_at doc p) of None \<Rightarrow> None | Some as \<Rightarrow> map_of as n)"
  by (simp add: getAttribute_def split: option.splits)

lemma getAttribute_jq_attr:
  "getAttribute (jq_attr doc sel n v) q m =
     (if q \<in> set sel \<and> m = n \<and> node_at doc q \<noteq> None then Some v else getAttribute doc q m)"
  by (auto simp: getAttribute_alt attrs_jq_attr map_of_setAttribute split: option.splits)

lemma element_eqI:
  "shape d = shape d' \<Longrightarrow>
   (\<And>p. map_option attributes (node_at d p) = map_option attributes (node_at d' p)) \<Longrightarrow>
   d = d'"
proof (induction d arbitrary: d')
  case (Element t c a ks)
  obtain t' c' a' ks' where d': "d' = Element t' c' a' ks'" by (cases d')
  from Element.prems(1) d' have tc: "t' = t" "c' = c" and ms: "map shape ks = map shape ks'"
    by simp_all
  from Element.prems(2)[of "[]"] d' have a: "a' = a" by simp
  from ms have len: "length ks = length ks'" by (metis length_map)
  have "ks ! i = ks' ! i" if i: "i < length ks" for i
  proof (rule Element.IH)
    show "ks ! i \<in> set ks" using i by simp
    show "shape (ks ! i) = shape (ks' ! i)" using ms i len by (metis nth_map)
    show "map_option attributes (node_at (ks ! i) p) = map_option attributes (node_at (ks' ! i) p)" for p
      using Element.prems(2)[of "i # p"] d' i len by simp
  qed
  then have "ks = ks'" using len by (simp add: nth_equalityI)
  then show ?case using d' tc a by simp
qed

lemma jq_attr_idem: "jq_attr (jq_attr doc sel n v) sel n v = jq_attr doc sel n v"
proof (rule element_eqI)
  show "shape (jq_attr (jq_attr doc sel n v) sel n v) = shape (jq_attr doc sel n v)"
    by (simp add: shape_jq_attr)
  show "map_option attributes (node_at (jq_attr (jq_attr doc sel n v) sel n v) p) =
        map_option attributes (node_at (jq_attr doc sel n v) p)" for p
    by (simp add: attrs_jq_attr option.map_comp comp_def setAttribute_idem)
qed

lemma jq_attr_set_cong:
  "set sel = set sel' \<Longrightarrow> jq_attr doc sel n v = jq_attr doc sel' n v"
  by (rule element_eqI) (simp_all add: shape_jq_attr attrs_jq_attr)

lemma updateImage_idem:
  "updateImage (updateImage doc divs src) divs src = updateImage doc divs src"
proof -
  have "jq_find (updateImage doc divs src) (jq_siblings (updateImage doc divs src) divs) ''update-image''
        = jq_find doc (jq_siblings doc divs) ''update-image''"
    by (rule same_shape_targets) (rule shape_updateImage)
  then show ?thesis
    unfolding updateImage_def[of "updateImage doc divs src"]
    by (simp add: updateImage_def jq_attr_idem)
qed

section \<open>The page over a run\<close>

lemma trigger_bound [simp]:
  "show_bound (trigger pg ev) = show_bound pg" "hide_bound (trigger pg ev) = hide_bound pg"
  by (cases "(pg, ev)" rule: trigger.cases; simp)+

lemma trigger_shape: "shape (document (trigger pg ev)) = shape (document pg)"
  by (cases "(pg, ev)" rule: trigger.cases) (simp_all add: shape_updateImage)

lemma run_snoc: "run pg (evs @ [ev]) = trigger (run pg evs) ev"
  by (simp add: run_def)

lemma run_invariant:
  "show_bound (run pg evs) = show_bound pg \<and> hide_bound (run pg evs) = hide_bound pg \<and>
   shape (document (run pg evs)) = shape (document pg)"
  by (induction evs rule: rev_induct) (simp_all add: run_def trigger_shape)

lemma ready_bound:
  "show_bound (ready doc) = jq_select doc ''update-on-expand''"
  "hide_bound (ready doc) = jq_select doc ''update-on-expand''"
  by (simp_all add: ready_def Let_def same_shape_select[OF shape_updateImage])

lemma ready_document:
  "document (ready doc) = updateImage doc (jq_select doc ''update-on-expand'') COLLAPSED_SRC"
  by (simp add: ready_def Let_def)

lemma ready_shape: "shape (document (ready doc)) = shape doc"
  by (simp add: ready_document shape_updateImage)

lemma updateImage_target:
  assumes "q @ [i] \<in> set divs" "j \<noteq> i" "r \<noteq> []" "hasClass doc (q @ j # r) ''update-image''"
  shows "getAttribute (updateImage doc divs src) (q @ j # r) ''src'' = Some src"
proof -
  have "q @ j # r \<in> set (jq_find doc (jq_siblings doc divs) ''update-image'')"
    unfolding targets_iff using assms by blast
  moreover have "node_at doc (q @ j # r) \<noteq> None" using assms(4) by (rule hasClass_valid)
  ultimately show ?thesis by (simp add: updateImage_def getAttribute_jq_attr)
qed

lemma updateImage_frame:
  assumes "n \<noteq> ''src'' \<or> p \<notin> set (jq_find doc (jq_siblings doc divs) ''update-image'')"
  shows "getAttribute (updateImage doc divs src) p n = getAttribute doc p n"
  using assms by (auto simp: updateImage_def getAttribute_jq_attr)

lemma after_trigger:
  assumes "hasClass doc (q @ [i]) ''update-on-expand''"
    and "j \<noteq> i" "r \<noteq> []" "hasClass doc (q @ j # r) ''update-image''"
  shows "getAttribute (document (trigger (run (ready doc) evs) (k, q @ [i]))) (q @ j # r) ''src''
         = Some (case k of show_bs_collapse \<Rightarrow> EXPANDED_SRC | hide_bs_collapse \<Rightarrow> COLLAPSED_SRC)"
proof -
  let ?pg = "run (ready doc) evs"
  have b: "q @ [i] \<in> set (show_bound ?pg)" "q @ [i] \<in> set (hide_bound ?pg)"
    using assms(1) by (simp_all add: run_invariant ready_bound jq_select_iff)
  have "shape (document ?pg) = shape doc" by (simp add: run_invariant ready_shape)
  from same_shape_hasClass[OF this] assms(4)
  have img: "hasClass (document ?pg) (q @ j # r) ''update-image''" by simp
  have "getAttribute (updateImage (document ?pg) [q @ [i]] src) (q @ j # r) ''src'' = Some src" for src
    by (rule updateImage_target[OF _ assms(2,3) img]) simp
  then show ?thesis using b by (cases k) simp_all
qed

lemma after_ready:
  assumes "hasClass doc (q @ [i]) ''update-on-expand''"
    and "j \<noteq> i" "r \<noteq> []" "hasClass doc (q @ j # r) ''update-image''"
  shows "getAttribute (document (ready doc)) (q @ j # r) ''src'' = Some COLLAPSED_SRC"
  unfolding ready_document
  by (rule updateImage_target[OF _ assms(2,3,4)]) (simp add: jq_select_iff assms(1))

text \<open>
  Events at other elements in between do not disturb the icon of a toggle, as long as the
  image is not below a sibling of one of those elements too: the icon follows the last event
  that arrived at the toggle itself.
\<close>

lemma other_events_keep_icon:
  assumes toggle: "hasClass doc (q @ [i]) ''update-on-expand''"
    and "j \<noteq> i" and "r \<noteq> []" and image: "hasClass doc (q @ j # r) ''update-image''"
    and others: "\<And>k t. (k, t) \<in> set evs \<Longrightarrow> t \<noteq> q @ [i] \<Longrightarrow>
                  q @ j # r \<notin> set (jq_find doc (jq_siblings doc [t]) ''update-image'')"
  shows "getAttribute (document (run (ready doc) evs)) (q @ j # r) ''src''
         = Some (case filter (\<lambda>ev. snd ev = q @ [i]) evs of
                   [] \<Rightarrow> COLLAPSED_SRC
                 | ev # rest \<Rightarrow>
                     (if fst (last (ev # rest)) = show_bs_collapse then EXPANDED_SRC
                      else COLLAPSED_SRC))"
  using others
proof (induction evs rule: rev_induct)
  case Nil
  show ?case using after_ready[OF assms(1-4)] by (simp add: run_def)
next
  case (snoc ev evs)
  obtain k t where ev: "ev = (k, t)" by (cases ev)
  let ?pg = "run (ready doc) evs"
  show ?case
  proof (cases "t = q @ [i]")
    case True
    have "getAttribute (document (run (ready doc) (evs @ [ev]))) (q @ j # r) ''src''
          = Some (case k of show_bs_collapse \<Rightarrow> EXPANDED_SRC | hide_bs_collapse \<Rightarrow> COLLAPSED_SRC)"
      unfolding run_snoc ev True by (rule after_trigger[OF assms(1-4)])
    then show ?thesis using ev True
      by (cases k; cases "filter (\<lambda>ev. snd ev = q @ [i]) evs") simp_all
  next
    case False
    have "shape (document ?pg) = shape doc" by (simp add: run_invariant ready_shape)
    from same_shape_targets[OF this]
    have "jq_find (document ?pg) (jq_siblings (document ?pg) [t]) ''update-image''
          = jq_find doc (jq_siblings doc [t]) ''update-image''" .
    moreover have "q @ j # r \<notin> set (jq_find doc (jq_siblings doc [t]) ''update-image'')"
      using snoc.prems[of k t] ev False by simp
    ultimately have "getAttribute (updateImage (document ?pg) [t] src) (q @ j # r) ''src''
          = getAttribute (document ?pg) (q @ j # r) ''src''" for src
      by (intro updateImage_frame) simp
    then have "getAttribute (document (trigger ?pg (k, t))) (q @ j # r) ''src''
          = getAttribute (document ?pg) (q @ j # r) ''src''"
      by (cases k) simp_all
    moreover have "getAttribute (document ?pg) (q @ j # r) ''src''
         = Some (case filter (\<lambda>ev. snd ev = q @ [i]) evs of
                   [] \<Rightarrow> COLLAPSED_SRC
                 | ev # rest \<Rightarrow>
                     (if fst (last (ev # rest)) = show_bs_collapse then EXPANDED_SRC
                      else COLLAPSED_SRC))"
      by (rule snoc.IH) (use snoc.prems in auto)
    ultimately show ?thesis using ev False by (simp add: run_snoc)
  qed
qed

section \<open>The icon after initialization and after events\<close>

text \<open>
  Claim C1. Let the toggle be the element at \<open>q @ [i]\<close>, with class \<^verbatim>\<open>update-on-expand\<close> when the
  page loads, and let an element with class \<^verbatim>\<open>update-image\<close> lie at \<open>q @ j # r\<close>, strictly
  below the toggle's sibling \<open>q @ [j]\<close>. After initialization and any events whatsoever, a
  \<^verbatim>\<open>show.bs.collapse\<close> event on the toggle leaves the image's \<^verbatim>\<open>src\<close> equal to the expanded
  icon URL.
\<close>

theorem expand_sets_expanded_icon:
  assumes "hasClass doc (q @ [i]) ''update-on-expand''"
    and "j \<noteq> i" and "r \<noteq> []" and "hasClass doc (q @ j # r) ''update-image''"
  shows "getAttribute
           (document (trigger (run (ready doc) evs) (show_bs_collapse, q @ [i])))
           (q @ j # r) ''src'' = Some EXPANDED_SRC"
  using after_trigger[OF assms, of evs show_bs_collapse] by (simp only: event_type.case)

theorem expand_sets_expanded_icon_witness:
  "getAttribute
     (document (trigger (run (ready sample_doc) [(hide_bs_collapse, [1])]) (show_bs_collapse, [1])))
     [3, 0] ''src'' = Some EXPANDED_SRC"
proof -
  have toggle: "hasClass sample_doc ([] @ [1]) ''update-on-expand''"
    by (simp add: sample_doc_def hasClass_def)
  have image: "hasClass sample_doc ([] @ 3 # [0]) ''update-image''"
    by (simp add: sample_doc_def hasClass_def)
  show ?thesis
    using expand_sets_expanded_icon[OF toggle _ _ image, of "[(hide_bs_collapse, [1])]"]
    by (simp only: append_Nil) simp
qed

text \<open>
  Claim C2. For the same toggle and image, a \<^verbatim>\<open>hide.bs.collapse\<close> event on the toggle leaves
  the image's \<^verbatim>\<open>src\<close> equal to the collapsed icon URL, whatever events came before.
\<close>

theorem collapse_sets_collapsed_icon:
  assumes "hasClass doc (q @ [i]) ''update-on-expand''"
    and "j \<noteq> i" and "r \<noteq> []" and "hasClass doc (q @ j # r) ''update-image''"
  shows "getAttribute
           (document (trigger (run (ready doc) evs) (hide_bs_collapse, q @ [i])))
           (q @ j # r) ''src'' = Some COLLAPSED_SRC"
  using after_trigger[OF assms, of evs hide_bs_collapse] by (simp only: event_type.case)

theorem collapse_sets_collapsed_icon_witness:
  "getAttribute
     (document (trigger (run (ready sample_doc) [(show_bs_collapse, [1]), (show_bs_collapse, [1, 0])])
                  (hide_bs_collapse, [1])))
     [0, 0, 0] ''src'' = Some COLLAPSED_SRC"
proof -
  have toggle: "hasClass sample_doc ([] @ [1]) ''update-on-expand''"
    by (simp add: sample_doc_def hasClass_def)
  have image: "hasClass sample_doc ([] @ 0 # [0, 0]) ''update-image''"
    by (simp add: sample_doc_def hasClass_def)
  show ?thesis
    using collapse_sets_collapsed_icon[OF toggle _ _ image,
        of "[(show_bs_collapse, [1]), (show_bs_collapse, [1, 0])]"]
    by (simp only: append_Nil) simp
qed

text \<open>
  Claim C3. Right after the ready callback, before any event, the \<^verbatim>\<open>src\<close> of every image
  below a sibling of a toggle present at load is the collapsed icon URL.
\<close>

theorem ready_sets_collapsed_icon:
  assumes "hasClass doc (q @ [i]) ''update-on-expand''"
    and "j \<noteq> i" and "r \<noteq> []" and "hasClass doc (q @ j # r) ''update-image''"
  shows "getAttribute (document (ready doc)) (q @ j # r) ''src'' = Some COLLAPSED_SRC"
  unfolding ready_document
proof (rule updateImage_target)
  show "q @ [i] \<in> set (jq_select doc ''update-on-expand'')"
    using assms(1) by (simp only: jq_select_iff)
qed (fact assms)+

theorem ready_sets_collapsed_icon_witness:
  "getAttribute (document (ready sample_doc)) [0, 0, 0] ''src'' = Some COLLAPSED_SRC"
proof -
  have toggle: "hasClass sample_doc ([] @ [1]) ''update-on-expand''"
    by (simp add: sample_doc_def hasClass_def)
  have image: "hasClass sample_doc ([] @ 0 # [0, 0]) ''update-image''"
    by (simp add: sample_doc_def hasClass_def)
  show ?thesis
    using ready_sets_collapsed_icon[OF toggle _ _ image] by (simp only: append_Nil) simp
qed

text \<open>
  Claim C4. After initialization and any finite sequence \<open>ks\<close> of expand and collapse events
  delivered to one toggle, the \<^verbatim>\<open>src\<close> of its image is fixed by the last event alone: the
  expanded URL after an expand, the collapsed URL after a collapse, and the collapsed URL when
  there was no event.
\<close>

theorem icon_follows_last_event:
  assumes "hasClass doc (q @ [i]) ''update-on-expand''"
    and "j \<noteq> i" and "r \<noteq> []" and "hasClass doc (q @ j # r) ''update-image''"
  shows "getAttribute
           (document (run (ready doc) (map (\<lambda>k. (k, q @ [i])) ks)))
           (q @ j # r) ''src''
         = Some (if ks \<noteq> [] \<and> last ks = show_bs_collapse then EXPANDED_SRC else COLLAPSED_SRC)"
proof (cases ks rule: rev_cases)
  case Nil
  then show ?thesis using after_ready[OF assms] by (simp add: run_def)
next
  case (snoc ks' k)
  have "getAttribute (document (run (ready doc) (map (\<lambda>k. (k, q @ [i])) ks))) (q @ j # r) ''src''
        = Some (case k of show_bs_collapse \<Rightarrow> EXPANDED_SRC | hide_bs_collapse \<Rightarrow> COLLAPSED_SRC)"
    unfolding snoc map_append list.map run_snoc by (rule after_trigger[OF assms])
  then show ?thesis using snoc by (cases k) simp_all
qed

theorem icon_follows_last_event_witness:
  "getAttribute
     (document (run (ready sample_doc)
        (map (\<lambda>k. (k, [1])) [show_bs_collapse, hide_bs_collapse, show_bs_collapse])))
     [0, 0, 0] ''src'' = Some EXPANDED_SRC"
proof -
  have toggle: "hasClass sample_doc ([] @ [1]) ''update-on-expand''"
    by (simp add: sample_doc_def hasClass_def)
  have image: "hasClass sample_doc ([] @ 0 # [0, 0]) ''update-image''"
    by (simp add: sample_doc_def hasClass_def)
  show ?thesis
    using icon_follows_last_event[OF toggle _ _ image,
        of "[show_bs_collapse, hide_bs_collapse, show_bs_collapse]"]
    by (simp only: append_Nil) simp
qed

section \<open>Determinism, coverage and idempotence\<close>

lemma trigger_idem: "trigger (trigger pg ev) ev = trigger pg ev"
  by (cases "(pg, ev)" rule: trigger.cases) (simp_all add: updateImage_idem)

lemma sets_src_updateImage: "sets_src doc divs src (updateImage doc divs src)"
  unfolding updateImage_def by (rule visit) (rule refl)




lemma handles_trigger: "handles pg ev (trigger pg ev)"
proof (cases "(pg, ev)" rule: trigger.cases)
  case (1 pg' this)
  then show ?thesis
    by (cases "this \<in> set (show_bound pg)")
       (simp_all add: on_show[OF _ sets_src_updateImage] no_show)
next
  case (2 pg' this)
  then show ?thesis
    by (cases "this \<in> set (hide_bound pg)")
       (simp_all add: on_hide[OF _ sets_src_updateImage] no_hide)
qed


lemma runs_run: "runs pg evs (run pg evs)"
proof (induction evs arbitrary: pg)
  case Nil
  show ?case by (simp add: run_def runs_Nil)
next
  case (Cons ev evs)
  have "runs (trigger pg ev) evs (run (trigger pg ev) evs)" by (rule Cons.IH)
  then have "runs pg (ev # evs) (run (trigger pg ev) evs)"
    by (rule runs_Cons[OF handles_trigger])
  then show ?case by (simp add: run_def)
qed




text \<open>
  Claim C9. \<^verbatim>\<open>updateImage(div, src)\<close> sets \<^verbatim>\<open>src\<close> on every element with class \<^verbatim>\<open>update-image\<close>
  that lies strictly below any sibling \<open>q @ [j]\<close> of any element \<open>q @ [i]\<close> of \<^verbatim>\<open>div\<close>: all
  such images in all the siblings' subtrees, not one designated image.
\<close>

theorem updateImage_sets_every_image:
  assumes "q @ [i] \<in> set divs"
    and "j \<noteq> i" and "r \<noteq> []" and "hasClass doc (q @ j # r) ''update-image''"
  shows "getAttribute (updateImage doc divs src) (q @ j # r) ''src'' = Some src"
proof -
  have "q @ j # r \<in> set (jq_find doc (jq_siblings doc divs) ''update-image'')"
    unfolding targets_iff using assms by blast
  moreover have "node_at doc (q @ j # r) \<noteq> None" using assms(4) by (rule hasClass_valid)
  ultimately show ?thesis by (simp add: updateImage_def getAttribute_jq_attr)
qed

theorem updateImage_sets_every_image_witness:
  "getAttribute (updateImage sample_doc [[1]] ''minus.png'') [0, 0, 0] ''src'' = Some ''minus.png'' \<and>
   getAttribute (updateImage sample_doc [[1]] ''minus.png'') [3, 0] ''src'' = Some ''minus.png''"
proof -
  have heading: "hasClass sample_doc ([] @ 0 # [0, 0]) ''update-image''"
    by (simp add: sample_doc_def hasClass_def)
  have footer: "hasClass sample_doc ([] @ 3 # [0]) ''update-image''"
    by (simp add: sample_doc_def hasClass_def)
  have sel: "[] @ [1] \<in> set [[1::nat]]" by simp
  show ?thesis
    using updateImage_sets_every_image[OF sel _ _ heading, of "''minus.png''"]
          updateImage_sets_every_image[OF sel _ _ footer, of "''minus.png''"]
    by (simp only: append_Nil) simp
qed

text \<open>
  Claim C10. \<^verbatim>\<open>updateImage\<close> is idempotent: a second call with the same elements and the
  same URL changes nothing. Hence the same event delivered twice, or any number of times in
  a row, leaves the page as one delivery does.
\<close>

theorem updateImage_idempotent:
  "updateImage (updateImage doc divs src) divs src = updateImage doc divs src \<and>
   trigger (trigger pg ev) ev = trigger pg ev \<and>
   run pg (replicate (Suc n) ev) = trigger pg ev"
proof -
  have "run pg (replicate (Suc n) ev) = trigger pg ev"
  proof (induction n)
    case 0
    show ?case by (simp add: run_def)
  next
    case (Suc n)
    have "run pg (replicate (Suc (Suc n)) ev) = trigger (run pg (replicate (Suc n) ev)) ev"
      unfolding replicate_Suc[of "Suc n"] replicate_append_same[symmetric] by (rule run_snoc)
    then show ?case by (simp only: Suc.IH trigger_idem)
  qed
  then show ?thesis by (simp only: updateImage_idem trigger_idem simp_thms)
qed

lemma updateImage_mutation:
  assumes "getAttribute (updateImage doc divs src) p n \<noteq> getAttribute doc p n"
  shows "n = ''src'' \<and> hasClass doc p ''update-image'' \<and>
         (\<exists>q i j r. q @ [i] \<in> set divs \<and> p = q @ j # r \<and> j \<noteq> i \<and> r \<noteq> [])"
proof -
  from assms have n: "n = ''src''"
    and "p \<in> set (jq_find doc (jq_siblings doc divs) ''update-image'')"
    using updateImage_frame[of n p doc divs src] by blast+
  then obtain q i j r where "q @ [i] \<in> set divs" "j \<noteq> i" "r \<noteq> []" "p = q @ j # r"
    "hasClass doc p ''update-image''"
    unfolding targets_iff by blast
  with n show ?thesis by blast
qed

section \<open>What is mutated and what is not\<close>

text \<open>
  Claim C6 says every mutation targets an image that is a direct sibling of the toggle. On
  the sample page an expand event on the toggle \<open>[1]\<close> changes the \<^verbatim>\<open>src\<close> of the icon at
  \<open>[0, 0, 0]\<close>, two levels below the sibling \<open>[0]\<close> and not itself a sibling of the toggle,
  while the logo at \<open>[2]\<close>, a direct sibling with class \<^verbatim>\<open>update-image\<close>, keeps its \<^verbatim>\<open>src\<close>.
\<close>

theorem direct_sibling_counterexample:
  "getAttribute (document (trigger (ready sample_doc) (show_bs_collapse, [1]))) [0, 0, 0] ''src''
     \<noteq> getAttribute (document (ready sample_doc)) [0, 0, 0] ''src'' \<and>
   [0, 0, 0] \<notin> set (jq_siblings (document (ready sample_doc)) [[1]]) \<and>
   [2] \<in> set (jq_siblings (document (ready sample_doc)) [[1]]) \<and>
   hasClass (document (ready sample_doc)) [2] ''update-image'' \<and>
   getAttribute (document (trigger (ready sample_doc) (show_bs_collapse, [1]))) [2] ''src''
     = Some ''logo.png''"
  by code_simp


text \<open>
  Claim C6 as amended. Every attribute a handler or the ready callback changes is the
  \<^verbatim>\<open>src\<close> of an element with class \<^verbatim>\<open>update-image\<close> that lies strictly below a sibling of the
  toggle: for a handler the element the event arrived at, for the ready callback some element
  with class \<^verbatim>\<open>update-on-expand\<close>.
\<close>

theorem mutations_hit_images_below_siblings:
  "(getAttribute (document (trigger pg (k, this))) p n \<noteq> getAttribute (document pg) p n \<longrightarrow>
      n = ''src'' \<and> hasClass (document pg) p ''update-image'' \<and>
      (\<exists>q i j r. this = q @ [i] \<and> p = q @ j # r \<and> j \<noteq> i \<and> r \<noteq> [])) \<and>
   (getAttribute (document (ready doc)) p n \<noteq> getAttribute doc p n \<longrightarrow>
      n = ''src'' \<and> hasClass doc p ''update-image'' \<and>
      (\<exists>q i j r. hasClass doc (q @ [i]) ''update-on-expand'' \<and>
                 p = q @ j # r \<and> j \<noteq> i \<and> r \<noteq> []))"
proof (intro conjI impI)
  assume m: "getAttribute (document (trigger pg (k, this))) p n \<noteq> getAttribute (document pg) p n"
  then obtain src where "document (trigger pg (k, this)) = updateImage (document pg) [this] src"
    by (cases k; cases "this \<in> set (show_bound pg)"; cases "this \<in> set (hide_bound pg)") auto
  with m have "getAttribute (updateImage (document pg) [this] src) p n \<noteq> getAttribute (document pg) p n"
    by simp
  from updateImage_mutation[OF this]
  show "n = ''src''" and "hasClass (document pg) p ''update-image''"
    and "\<exists>q i j r. this = q @ [i] \<and> p = q @ j # r \<and> j \<noteq> i \<and> r \<noteq> []"
    by auto
next
  assume "getAttribute (document (ready doc)) p n \<noteq> getAttribute doc p n"
  then have "getAttribute (updateImage doc (jq_select doc ''update-on-expand'') COLLAPSED_SRC) p n
             \<noteq> getAttribute doc p n"
    unfolding ready_document .
  from updateImage_mutation[OF this]
  show "n = ''src''" and "hasClass doc p ''update-image''"
    and "\<exists>q i j r. hasClass doc (q @ [i]) ''update-on-expand'' \<and>
                   p = q @ j # r \<and> j \<noteq> i \<and> r \<noteq> []"
    by (auto simp: jq_select_iff)
qed

theorem mutations_hit_images_below_siblings_witness:
  "(hasClass (document (ready sample_doc)) [0, 0, 0] ''update-image'' \<and>
    (\<exists>q i j r. [1::nat] = q @ [i] \<and> [0::nat, 0, 0] = q @ j # r \<and> j \<noteq> i \<and> r \<noteq> [])) \<and>
   (hasClass sample_doc [0, 0, 0] ''update-image'' \<and>
    (\<exists>q i j r. hasClass sample_doc (q @ [i]) ''update-on-expand'' \<and>
               [0::nat, 0, 0] = q @ j # r \<and> j \<noteq> i \<and> r \<noteq> []))"
proof -
  have a: "getAttribute (document (trigger (ready sample_doc) (show_bs_collapse, [1]))) [0, 0, 0] ''src''
           \<noteq> getAttribute (document (ready sample_doc)) [0, 0, 0] ''src''"
    by code_simp
  have b: "getAttribute (document (ready sample_doc)) [0, 0, 0] ''src''
           \<noteq> getAttribute sample_doc [0, 0, 0] ''src''"
    by code_simp
  note t = mutations_hit_images_below_siblings[of "ready sample_doc" show_bs_collapse "[1]"
             "[0, 0, 0]" "''src''" sample_doc]
  from t[THEN conjunct1, THEN mp, OF a, THEN conjunct2]
       t[THEN conjunct2, THEN mp, OF b, THEN conjunct2]
  show ?thesis by (rule conjI)
qed

text \<open>
  Claim C7. One handler invocation changes \<^verbatim>\<open>src\<close> attributes only, and only on the
  elements its selector matches: every attribute other than \<^verbatim>\<open>src\<close>, and the \<^verbatim>\<open>src\<close> of every
  element the selector does not match, is as before, and so are the tags, the classes, the
  tree and the bindings.
\<close>

theorem handler_frame:
  assumes "n \<noteq> ''src'' \<or>
           p \<notin> set (jq_find (document pg) (jq_siblings (document pg) [this]) ''update-image'')"
  shows "getAttribute (document (trigger pg (k, this))) p n = getAttribute (document pg) p n \<and>
         shape (document (trigger pg (k, this))) = shape (document pg) \<and>
         show_bound (trigger pg (k, this)) = show_bound pg \<and>
         hide_bound (trigger pg (k, this)) = hide_bound pg"
proof -
  have "getAttribute (updateImage (document pg) [this] src) p n = getAttribute (document pg) p n"
    for src
    using assms by (rule updateImage_frame)
  then have "getAttribute (document (trigger pg (k, this))) p n = getAttribute (document pg) p n"
    by (cases k) simp_all
  then show ?thesis by (simp add: trigger_shape)
qed

theorem handler_frame_witness:
  "(getAttribute (document (trigger (ready sample_doc) (show_bs_collapse, [1]))) [2] ''src''
      = getAttribute (document (ready sample_doc)) [2] ''src'' \<and>
    getAttribute (document (trigger (ready sample_doc) (hide_bs_collapse, [1]))) [0, 0, 0] ''alt''
      = getAttribute (document (ready sample_doc)) [0, 0, 0] ''alt'') \<and>
   shape (document (trigger (ready sample_doc) (show_bs_collapse, [1])))
      = shape (document (ready sample_doc))"
proof -
  have a: "''src'' \<noteq> ''src'' \<or> [2] \<notin> set (jq_find (document (ready sample_doc))
            (jq_siblings (document (ready sample_doc)) [[1]]) ''update-image'')"
    by code_simp
  have b: "''alt'' \<noteq> ''src'' \<or> [0, 0, 0] \<notin> set (jq_find (document (ready sample_doc))
            (jq_siblings (document (ready sample_doc)) [[1]]) ''update-image'')"
    by simp
  from handler_frame[OF a, of show_bs_collapse] handler_frame[OF b, of hide_bs_collapse]
  show ?thesis by (simp only: simp_thms)
qed

text \<open>
  Claim C5. Let the toggle \<open>q @ [i]\<close> have no element with class \<^verbatim>\<open>update-image\<close> strictly
  below any of its siblings. Then its selector matches zero elements, either handler on it
  leaves the page exactly as it was, and the ready callback produces the document it would
  produce were this toggle not selected at all. The model has no error outcome: every
  operation returns a page.
\<close>

theorem toggle_without_image_noop:
  assumes "\<And>j r. j \<noteq> i \<Longrightarrow> r \<noteq> [] \<Longrightarrow> \<not> hasClass doc (q @ j # r) ''update-image''"
  shows "jq_find doc (jq_siblings doc [q @ [i]]) ''update-image'' = [] \<and>
         trigger (pg\<lparr>document := doc\<rparr>) (k, q @ [i]) = pg\<lparr>document := doc\<rparr> \<and>
         document (ready doc)
           = updateImage doc (removeAll (q @ [i]) (jq_select doc ''update-on-expand'')) COLLAPSED_SRC"
proof -
  have none: "jq_find doc (jq_siblings doc [q @ [i]]) ''update-image'' = []"
  proof (rule ccontr)
    assume "jq_find doc (jq_siblings doc [q @ [i]]) ''update-image'' \<noteq> []"
    then obtain p where "p \<in> set (jq_find doc (jq_siblings doc [q @ [i]]) ''update-image'')"
      by (cases "jq_find doc (jq_siblings doc [q @ [i]]) ''update-image''") auto
    then show False unfolding targets_iff using assms by auto
  qed
  then have same: "updateImage doc [q @ [i]] src = doc" for src
    by (simp add: updateImage_def jq_attr_def)
  have handler: "trigger (pg\<lparr>document := doc\<rparr>) (k, q @ [i]) = pg\<lparr>document := doc\<rparr>"
    by (cases k) (simp_all add: same)
  let ?sel = "jq_select doc ''update-on-expand''"
  have "set (jq_find doc (jq_siblings doc (removeAll (q @ [i]) ?sel)) ''update-image'')
        = set (jq_find doc (jq_siblings doc ?sel) ''update-image'')"
  proof (rule set_eqI)
    fix p
    show "p \<in> set (jq_find doc (jq_siblings doc (removeAll (q @ [i]) ?sel)) ''update-image'')
          \<longleftrightarrow> p \<in> set (jq_find doc (jq_siblings doc ?sel) ''update-image'')"
    proof
      assume "p \<in> set (jq_find doc (jq_siblings doc (removeAll (q @ [i]) ?sel)) ''update-image'')"
      then show "p \<in> set (jq_find doc (jq_siblings doc ?sel) ''update-image'')"
        unfolding targets_iff by auto
    next
      assume "p \<in> set (jq_find doc (jq_siblings doc ?sel) ''update-image'')"
      then obtain q' i' j r where h: "q' @ [i'] \<in> set ?sel" "j \<noteq> i'" "r \<noteq> []"
        "p = q' @ j # r" "hasClass doc p ''update-image''"
        unfolding targets_iff by blast
      have "q' @ [i'] \<noteq> q @ [i]"
      proof
        assume "q' @ [i'] = q @ [i]"
        then have "q' = q" "i' = i" by simp_all
        with h assms[of j r] show False by simp
      qed
      with h(1) have "q' @ [i'] \<in> set (removeAll (q @ [i]) ?sel)" by simp
      with h show "p \<in> set (jq_find doc (jq_siblings doc (removeAll (q @ [i]) ?sel)) ''update-image'')"
        unfolding targets_iff by blast
    qed
  qed
  then have "updateImage doc (removeAll (q @ [i]) ?sel) COLLAPSED_SRC
             = updateImage doc ?sel COLLAPSED_SRC"
    unfolding updateImage_def by (rule jq_attr_set_cong)
  then show ?thesis using none handler by (simp only: ready_document simp_thms)
qed

theorem toggle_without_image_noop_witness:
  "jq_find sample_doc (jq_siblings sample_doc [[1, 0]]) ''update-image'' = [] \<and>
   trigger ((ready sample_doc)\<lparr>document := sample_doc\<rparr>) (show_bs_collapse, [1, 0])
     = (ready sample_doc)\<lparr>document := sample_doc\<rparr> \<and>
   document (ready sample_doc)
     = updateImage sample_doc (removeAll [1, 0] (jq_select sample_doc ''update-on-expand''))
         COLLAPSED_SRC"
proof -
  have e: "jq_find sample_doc (jq_siblings sample_doc [[1] @ [0]]) ''update-image'' = []"
    by code_simp
  have h: "\<not> hasClass sample_doc ([1] @ j # r) ''update-image''" if "j \<noteq> 0" "r \<noteq> []" for j r
  proof
    assume "hasClass sample_doc ([1] @ j # r) ''update-image''"
    with that have "[1] @ j # r \<in> set (jq_find sample_doc (jq_siblings sample_doc [[1] @ [0]]) ''update-image'')"
      unfolding targets_iff by auto
    with e show False by simp
  qed
  have "jq_find sample_doc (jq_siblings sample_doc [[1] @ [0]]) ''update-image'' = [] \<and>
        trigger ((ready sample_doc)\<lparr>document := sample_doc\<rparr>) (show_bs_collapse, [1] @ [0])
          = (ready sample_doc)\<lparr>document := sample_doc\<rparr> \<and>
        document (ready sample_doc)
          = updateImage sample_doc (removeAll ([1] @ [0]) (jq_select sample_doc ''update-on-expand''))
              COLLAPSED_SRC"
    by (rule toggle_without_image_noop) (rule h)
  then show ?thesis by (simp only: append.simps)
qed

end
